theory Spec2Isabelle
  imports Complex_Main "HOL-Library.Multiset" "HOL-Library.Log_Nat"
begin

section \<open>Data model\<close>

text \<open>
  The helper \<^verbatim>\<open>infer_independent\<close> of \<^verbatim>\<open>src/helper.py\<close> works on numpy values.
  A numpy array is a shape together with its elements in row-major order; a numpy scalar
  is the array of shape \<open>()\<close> with one element. The elements are double-precision
  floats in the program and reals here. The arithmetic of \<open>likelihood_dilution\<close> below
  is exact: rounding, overflow, infinities and NaN are not part of it (in particular a
  dilution factor of zero, which numpy divides by without raising, is outside it; the
  docstring calls \<open>d\<close> a vector of dilution factors). Where the order of the additions
  matters, \<open>likelihood_dilution_with\<close> takes the addition of \<^verbatim>\<open>numpy.sum\<close> as a
  parameter, and \<open>fl_add\<close> is the rounded addition of float64.
\<close>

record ndarray =
  shape :: "nat list"
  data :: "real list"

definition scalar :: "real \<Rightarrow> ndarray" where
  "scalar a = \<lparr>shape = [], data = [a]\<rparr>"

definition array1 :: "real list \<Rightarrow> ndarray" where
  \<comment> \<open>the one-dimensional array of the given elements\<close>
  "array1 xs = \<lparr>shape = [length xs], data = xs\<rparr>"

text \<open>
  Exceptions are values. \<open>TypeError\<close> and \<open>ValueError\<close> are the two that numpy and
  Python raise in the operations below; a calibration model may raise anything.
\<close>

datatype exn = TypeError | ValueError | ModelError string

text \<open>
  The calibration model is an object of the external library: all the helper uses of it
  is \<^verbatim>\<open>model.loglikelihood(x=..., y=...)\<close>, which returns an array or raises.
\<close>

record calibration_model =
  loglikelihood :: "ndarray \<Rightarrow> real \<Rightarrow> exn + ndarray"

text \<open>
  What \<^verbatim>\<open>likelihood_wrapper\<close> returns: a numpy array from the two direct calls, a Python
  list of numpy values from the loop.
\<close>

datatype pyval = NdArray ndarray | PyList "ndarray list"

section \<open>The numpy operations the helper calls\<close>

definition np_divide :: "ndarray \<Rightarrow> real \<Rightarrow> ndarray" where
  \<comment> \<open>\<^verbatim>\<open>x / d_i\<close> with a scalar \<open>d_i\<close>: elementwise, same shape\<close>
  "np_divide x d_i = \<lparr>shape = shape x, data = map (\<lambda>a. a / d_i) (data x)\<rparr>"

definition np_exp :: "ndarray \<Rightarrow> ndarray" where
  "np_exp a = \<lparr>shape = shape a, data = map exp (data a)\<rparr>"

definition expand_dims_last :: "ndarray \<Rightarrow> ndarray" where
  \<comment> \<open>\<^verbatim>\<open>x[..., None]\<close>: a new axis of length one at the end, same elements\<close>
  "expand_dims_last x = \<lparr>shape = shape x @ [1], data = data x\<rparr>"

definition same_shape :: "ndarray \<Rightarrow> ndarray \<Rightarrow> bool" where
  "same_shape v u \<longleftrightarrow> shape u = shape v \<and> length (data u) = length (data v)"

definition np_sum_axis0 :: "ndarray list \<Rightarrow> exn + ndarray" where
  \<comment> \<open>\<^verbatim>\<open>numpy.sum(LLs, axis=0)\<close> on a Python list: the list is stacked into one array
      (\<open>ValueError\<close> when the shapes differ) and summed along the new first axis; the
      empty list is the empty float array, whose sum is \<open>0.0\<close>. The sum is the exact
      one here; \<open>np_sum_axis0_with\<close> below adds in the order of the list\<close>
  "np_sum_axis0 LLs =
     (case LLs of
        [] \<Rightarrow> Inr (scalar 0)
      | v # _ \<Rightarrow>
          if list_all (same_shape v) LLs
          then Inr \<lparr>shape = shape v,
                    data = map (\<lambda>k. sum_list (map (\<lambda>u. data u ! k) LLs)) [0..<length (data v)]\<rparr>
          else Inl ValueError)"

definition iterate :: "ndarray \<Rightarrow> exn + ndarray list" where
  \<comment> \<open>\<^verbatim>\<open>for xi in x\<close>: the sub-arrays along the first axis; a 0-d array is not iterable\<close>
  "iterate x =
     (case shape x of
        [] \<Rightarrow> Inl TypeError
      | n # s \<Rightarrow>
          Inr (map (\<lambda>i. \<lparr>shape = s,
                          data = take (prod_list s) (drop (i * prod_list s) (data x))\<rparr>)
                 [0..<n]))"

fun try_map :: "('a \<Rightarrow> exn + 'b) \<Rightarrow> 'a list \<Rightarrow> exn + 'b list" where
  \<comment> \<open>a list comprehension whose body may raise: the first exception ends it\<close>
  "try_map f [] = Inr []"
| "try_map f (a # as) =
     (case f a of
        Inl e \<Rightarrow> Inl e
      | Inr b \<Rightarrow> (case try_map f as of Inl e \<Rightarrow> Inl e | Inr bs \<Rightarrow> Inr (b # bs)))"

section \<open>The helper\<close>

definition likelihood_dilution ::
  "ndarray \<Rightarrow> real list \<Rightarrow> real list \<Rightarrow> calibration_model \<Rightarrow> exn + ndarray" where
  "likelihood_dilution x y d model =
     (case try_map (\<lambda>(d_i, y_i). loglikelihood model (np_divide x d_i) y_i) (zip d y) of
        Inl e \<Rightarrow> Inl e
      | Inr LLs \<Rightarrow>
          (case np_sum_axis0 LLs of
             Inl e \<Rightarrow> Inl e
           | Inr s \<Rightarrow> Inr (np_exp s)))"

definition likelihood_wrapper ::
  "real list \<Rightarrow> calibration_model \<Rightarrow> ndarray \<Rightarrow> real list \<Rightarrow> bool \<Rightarrow> exn + pyval" where
  \<comment> \<open>the closure over \<open>d\<close> and \<open>model\<close>; \<open>x\<close>, \<open>y\<close> and \<open>scan_x\<close> are its keyword arguments\<close>
  "likelihood_wrapper d model x y scan_x =
     (if scan_x then
        (case likelihood_dilution (expand_dims_last x) y d model of
           Inr v \<Rightarrow> Inr (NdArray v)
         | Inl _ \<Rightarrow>
             (case iterate x of
                Inl e \<Rightarrow> Inl e
              | Inr xis \<Rightarrow>
                  (case try_map (\<lambda>xi. likelihood_dilution xi y d model) xis of
                     Inl e \<Rightarrow> Inl e
                   | Inr vs \<Rightarrow> Inr (PyList vs))))
      else
        (case likelihood_dilution x y d model of
           Inl e \<Rightarrow> Inl e
         | Inr v \<Rightarrow> Inr (NdArray v)))"

definition infer_independent ::
  "((ndarray \<Rightarrow> real list \<Rightarrow> bool \<Rightarrow> exn + pyval) \<Rightarrow> real list \<Rightarrow> real \<Rightarrow> real \<Rightarrow> int \<Rightarrow> real \<Rightarrow> 'r)
     \<Rightarrow> calibration_model \<Rightarrow> real list \<Rightarrow> real list \<Rightarrow> real \<Rightarrow> real \<Rightarrow> int \<Rightarrow> real \<Rightarrow> 'r" where
  \<comment> \<open>the first argument stands for the external \<^verbatim>\<open>calibr8.infer_independent\<close>\<close>
  "infer_independent calibr8_infer_independent model d y lower upper steps ci_prob =
     calibr8_infer_independent (likelihood_wrapper d model) y lower upper steps ci_prob"

section \<open>The sum in float64\<close>

text \<open>
  A float64 addition returns the float64 nearest to the exact sum, ties to the even
  significand. \<open>fl64\<close> rounds a real to 53 significant bits (the range of the exponent,
  and with it overflow and subnormal numbers, is left out): \<open>exponent2 r\<close> is the binary
  exponent \<open>e\<close> with \<open>2^e \<le> |r| < 2^(e+1)\<close>, and the result is a multiple of \<open>2^(e-52)\<close>.
\<close>

definition round_ties_even :: "real \<Rightarrow> int" where
  \<comment> \<open>the nearest integer, the even one of the two when \<open>q\<close> is halfway\<close>
  "round_ties_even q =
     (let n = \<lfloor>q\<rfloor>; r = q - of_int n
      in if r < 1 / 2 then n else if 1 / 2 < r then n + 1 else if even n then n else n + 1)"

definition exponent2 :: "real \<Rightarrow> int" where
  \<comment> \<open>the binary exponent of \<open>r \<noteq> 0\<close>, from the bit length of an integer\<close>
  "exponent2 r = (if 1 \<le> \<bar>r\<bar> then bitlen \<lfloor>\<bar>r\<bar>\<rfloor> - 1 else - bitlen (\<lceil>1 / \<bar>r\<bar>\<rceil> - 1))"

definition pow2 :: "int \<Rightarrow> real" where
  "pow2 e = (if 0 \<le> e then 2 ^ nat e else 1 / 2 ^ nat (- e))"

definition fl64 :: "real \<Rightarrow> real" where
  "fl64 r =
     (if r = 0 then 0
      else let u = pow2 (exponent2 r - 52) in of_int (round_ties_even (r / u)) * u)"

definition fl_add :: "real \<Rightarrow> real \<Rightarrow> real" where
  "fl_add a b = fl64 (a + b)"

definition is_float64 :: "real \<Rightarrow> bool" where
  \<comment> \<open>the float64 numbers are the reals that rounding leaves as they are\<close>
  "is_float64 t \<longleftrightarrow> fl64 t = t"

text \<open>
  \<^verbatim>\<open>numpy.sum(LLs, axis=0)\<close> adds the stacked arrays in the order of the list, from
  \<open>0.0\<close> (on eight or more contiguous numbers numpy adds in blocks; the examples below
  have three). With the addition as a parameter this is a left fold; the composer is the
  same function as above otherwise.
\<close>

definition np_sum_axis0_with :: "(real \<Rightarrow> real \<Rightarrow> real) \<Rightarrow> ndarray list \<Rightarrow> exn + ndarray" where
  "np_sum_axis0_with add LLs =
     (case LLs of
        [] \<Rightarrow> Inr (scalar 0)
      | v # _ \<Rightarrow>
          if list_all (same_shape v) LLs
          then Inr \<lparr>shape = shape v,
                    data = map (\<lambda>k. foldl add 0 (map (\<lambda>u. data u ! k) LLs)) [0..<length (data v)]\<rparr>
          else Inl ValueError)"

definition likelihood_dilution_with ::
  "(real \<Rightarrow> real \<Rightarrow> real) \<Rightarrow> ndarray \<Rightarrow> real list \<Rightarrow> real list \<Rightarrow> calibration_model \<Rightarrow> exn + ndarray" where
  "likelihood_dilution_with add x y d model =
     (case try_map (\<lambda>(d_i, y_i). loglikelihood model (np_divide x d_i) y_i) (zip d y) of
        Inl e \<Rightarrow> Inl e
      | Inr LLs \<Rightarrow>
          (case np_sum_axis0_with add LLs of
             Inl e \<Rightarrow> Inl e
           | Inr s \<Rightarrow> Inr (np_exp s)))"

section \<open>Models used in the examples\<close>

definition gauss_model :: calibration_model where
  \<comment> \<open>\<open>loglikelihood(x, y) = -(y - x)^2\<close>, elementwise on \<open>x\<close>\<close>
  "gauss_model =
     \<lparr>loglikelihood = (\<lambda>x y. Inr \<lparr>shape = shape x, data = map (\<lambda>a. - ((y - a)\<^sup>2)) (data x)\<rparr>)\<rparr>"

definition scalar_gauss_model :: calibration_model where
  \<comment> \<open>the same log-likelihood for a scalar \<open>x\<close> only: any other shape raises\<close>
  "scalar_gauss_model =
     \<lparr>loglikelihood = (\<lambda>x y.
        if shape x = [] then Inr \<lparr>shape = shape x, data = map (\<lambda>a. - ((y - a)\<^sup>2)) (data x)\<rparr>
        else Inl ValueError)\<rparr>"

definition flat_model :: calibration_model where
  \<comment> \<open>a log-likelihood that is the observation itself, whatever the candidate\<close>
  "flat_model = \<lparr>loglikelihood = (\<lambda>x y. Inr \<lparr>shape = shape x, data = map (\<lambda>a. y) (data x)\<rparr>)\<rparr>"

section \<open>List comprehensions that may raise\<close>

text \<open>
  A comprehension returns a list exactly when its body returns at every element, and
  raises the exception of the first element whose body raises.
\<close>

lemma try_map_Inr_iff:
  "try_map f xs = Inr ys \<longleftrightarrow> list_all2 (\<lambda>a b. f a = Inr b) xs ys"
proof (induction xs arbitrary: ys)
  case Nil
  show ?case by auto
next
  case (Cons a as)
  show ?case
  proof (cases "f a")
    case (Inl e)
    then show ?thesis by (cases ys) auto
  next
    case (Inr b)
    show ?thesis
    proof (cases "try_map f as")
      case (Inl e)
      then have "\<not> list_all2 (\<lambda>a b. f a = Inr b) as zs" for zs
        using Cons.IH[of zs] by simp
      with Inl Inr show ?thesis by (cases ys) auto
    next
      case r: (Inr bs)
      then have "list_all2 (\<lambda>a b. f a = Inr b) as zs \<longleftrightarrow> zs = bs" for zs
        using Cons.IH[of zs] by auto
      with r Inr show ?thesis by (cases ys) auto
    qed
  qed
qed

lemma try_map_Inr_nth:
  "try_map f xs = Inr ys \<longleftrightarrow>
     length ys = length xs \<and> (\<forall>i<length xs. f (xs ! i) = Inr (ys ! i))"
  unfolding try_map_Inr_iff list_all2_conv_all_nth by auto

lemma try_map_all_Inr:
  "(\<And>a. a \<in> set xs \<Longrightarrow> f a = Inr (g a)) \<Longrightarrow> try_map f xs = Inr (map g xs)"
  by (induction xs) auto

lemma try_map_Inr_set:
  "try_map f xs = Inr ys \<Longrightarrow> a \<in> set xs \<Longrightarrow> \<exists>b. f a = Inr b"
  by (induction xs arbitrary: ys) (auto split: sum.splits)

lemma try_map_Inr_projr:
  "try_map f xs = Inr ys \<Longrightarrow> ys = map (\<lambda>a. projr (f a)) xs"
  by (induction xs arbitrary: ys) (auto split: sum.splits)

lemma try_map_Inl_first:
  "try_map f xs = Inl e \<longleftrightarrow>
     (\<exists>i<length xs. f (xs ! i) = Inl e \<and> (\<forall>j<i. \<exists>v. f (xs ! j) = Inr v))"
proof (induction xs)
  case Nil
  show ?case by simp
next
  case (Cons a as)
  show ?case
  proof (cases "f a")
    case (Inl e')
    show ?thesis
    proof
      assume "try_map f (a # as) = Inl e"
      with Inl have "e' = e" by simp
      with Inl have "f ((a # as) ! 0) = Inl e \<and> (\<forall>j<0. \<exists>v. f ((a # as) ! j) = Inr v)" by simp
      then show "\<exists>i<length (a # as). f ((a # as) ! i) = Inl e \<and> (\<forall>j<i. \<exists>v. f ((a # as) ! j) = Inr v)"
        by (intro exI[of _ 0]) simp
    next
      assume "\<exists>i<length (a # as). f ((a # as) ! i) = Inl e \<and> (\<forall>j<i. \<exists>v. f ((a # as) ! j) = Inr v)"
      then obtain i where i: "i < length (a # as)" "f ((a # as) ! i) = Inl e"
        "\<forall>j<i. \<exists>v. f ((a # as) ! j) = Inr v" by blast
      have "i = 0"
      proof (rule ccontr)
        assume "i \<noteq> 0"
        then have "0 < i" by simp
        with i(3) obtain v where "f ((a # as) ! 0) = Inr v" by blast
        with Inl show False by simp
      qed
      with i(2) Inl show "try_map f (a # as) = Inl e" by simp
    qed
  next
    case (Inr b)
    have step: "try_map f (a # as) = Inl e \<longleftrightarrow> try_map f as = Inl e"
      using Inr by (simp split: sum.splits)
    show ?thesis
    proof
      assume "try_map f (a # as) = Inl e"
      with step Cons.IH obtain i where i: "i < length as" "f (as ! i) = Inl e"
        "\<forall>j<i. \<exists>v. f (as ! j) = Inr v" by blast
      have "\<forall>j<Suc i. \<exists>v. f ((a # as) ! j) = Inr v"
        using i(3) Inr by (auto simp: nth_Cons split: nat.splits)
      with i(1,2) show "\<exists>i<length (a # as). f ((a # as) ! i) = Inl e \<and> (\<forall>j<i. \<exists>v. f ((a # as) ! j) = Inr v)"
        by (intro exI[of _ "Suc i"]) simp
    next
      assume "\<exists>i<length (a # as). f ((a # as) ! i) = Inl e \<and> (\<forall>j<i. \<exists>v. f ((a # as) ! j) = Inr v)"
      then obtain i where i: "i < length (a # as)" "f ((a # as) ! i) = Inl e"
        "\<forall>j<i. \<exists>v. f ((a # as) ! j) = Inr v" by blast
      from i(2) Inr obtain k where k: "i = Suc k" by (cases i) auto
      from i k have "k < length as" "f (as ! k) = Inl e" by auto
      moreover have "\<forall>j<k. \<exists>v. f (as ! j) = Inr v"
      proof (intro allI impI)
        fix j assume "j < k"
        then have "Suc j < i" using k by simp
        with i(3) have "\<exists>v. f ((a # as) ! Suc j) = Inr v" by blast
        then show "\<exists>v. f (as ! j) = Inr v" by simp
      qed
      ultimately have "try_map f as = Inl e" using Cons.IH by blast
      with step show "try_map f (a # as) = Inl e" by simp
    qed
  qed
qed

lemma try_map_mset:
  assumes "mset xs' = mset xs" and "try_map f xs = Inr ys"
  shows "\<exists>ys'. try_map f xs' = Inr ys' \<and> mset ys' = mset ys"
proof -
  let ?g = "\<lambda>a. projr (f a)"
  have ys: "ys = map ?g xs" using assms(2) by (rule try_map_Inr_projr)
  have "f a = Inr (?g a)" if "a \<in> set xs'" for a
  proof -
    from that assms(1) have "a \<in> set xs" by (metis mset_eq_setD)
    with assms(2) obtain b where "f a = Inr b" by (blast dest: try_map_Inr_set)
    then show ?thesis by simp
  qed
  then have "try_map f xs' = Inr (map ?g xs')" by (rule try_map_all_Inr)
  moreover have "mset (map ?g xs') = mset ys"
    using assms(1) ys by simp
  ultimately show ?thesis by blast
qed

section \<open>Summing a list of arrays\<close>

lemma same_shape_trans:
  "same_shape v u \<Longrightarrow> same_shape v w \<Longrightarrow> same_shape u w"
  by (simp add: same_shape_def)

lemma np_sum_axis0_hd:
  "vs \<noteq> [] \<Longrightarrow> np_sum_axis0 vs =
     (if list_all (same_shape (hd vs)) vs
      then Inr \<lparr>shape = shape (hd vs),
                data = map (\<lambda>k. sum_list (map (\<lambda>u. data u ! k) vs)) [0..<length (data (hd vs))]\<rparr>
      else Inl ValueError)"
  by (cases vs) (simp_all add: np_sum_axis0_def)

lemma np_sum_axis0_same:
  assumes "LLs \<noteq> []" and "\<And>u. u \<in> set LLs \<Longrightarrow> shape u = s \<and> length (data u) = n"
  shows "np_sum_axis0 LLs =
           Inr \<lparr>shape = s, data = map (\<lambda>k. sum_list (map (\<lambda>u. data u ! k) LLs)) [0..<n]\<rparr>"
proof -
  have "hd LLs \<in> set LLs" using assms(1) by simp
  then have hd: "shape (hd LLs) = s" "length (data (hd LLs)) = n" using assms(2) by auto
  have "list_all (same_shape (hd LLs)) LLs"
    unfolding list_all_iff same_shape_def using assms(2) hd by simp
  with assms(1) hd show ?thesis by (simp add: np_sum_axis0_hd)
qed

lemma np_sum_axis0_single: "np_sum_axis0 [l] = Inr l"
  by (simp add: np_sum_axis0_def same_shape_def map_nth)

lemma np_divide_one: "np_divide x 1 = x"
  by (simp add: np_divide_def)

lemma map_upt_nth: "map (\<lambda>k. g (xs ! k)) [0..<length xs] = map g xs"
proof -
  have "map (\<lambda>k. g (xs ! k)) [0..<length xs] = map g (map (\<lambda>k. xs ! k) [0..<length xs])"
    by (simp add: comp_def)
  then show ?thesis by (simp only: map_nth)
qed

lemma iterate_array1: "iterate (array1 xs) = Inr (map scalar xs)"
proof -
  have "\<lparr>shape = [], data = take (Suc 0) (drop i xs)\<rparr> = scalar (xs ! i)" if "i < length xs" for i
  proof -
    have "drop i xs = xs ! i # drop (Suc i) xs" using that by (simp add: Cons_nth_drop_Suc)
    then show ?thesis by (simp add: scalar_def)
  qed
  then have "map (\<lambda>i. \<lparr>shape = [], data = take (Suc 0) (drop i xs)\<rparr>) [0..<length xs]
      = map (\<lambda>i. scalar (xs ! i)) [0..<length xs]"
    by (intro map_cong) auto
  then show ?thesis
    by (simp add: iterate_def array1_def map_upt_nth)
qed

section \<open>Rounding and the order of a sum\<close>

text \<open>
  The exponent brackets the number between two powers of two, and \<open>fl64\<close> moves a
  number by at most half a unit in the last place.
\<close>

lemma exponent2_bounds:
  assumes "r \<noteq> 0"
  shows "pow2 (exponent2 r) \<le> \<bar>r\<bar> \<and> \<bar>r\<bar> < pow2 (exponent2 r + 1)"
proof (cases "1 \<le> \<bar>r\<bar>")
  case True
  define n where "n = \<lfloor>\<bar>r\<bar>\<rfloor>"
  have n: "1 \<le> n" "of_int n \<le> \<bar>r\<bar>" "\<bar>r\<bar> < of_int n + 1"
    using True by (simp_all add: n_def le_floor_iff)
  then have "0 < n" by simp
  from bitlen_bounds[OF this] have b: "2 ^ nat (bitlen n - 1) \<le> n" "n < 2 ^ nat (bitlen n)"
    by simp_all
  have b1: "1 \<le> bitlen n" using \<open>0 < n\<close> by (simp add: bitlen_alt_def)
  have e: "exponent2 r = bitlen n - 1" using True by (simp add: exponent2_def n_def)
  have "of_int (2 ^ nat (bitlen n - 1)) \<le> (of_int n :: real)"
    using b(1) by (simp only: of_int_le_iff)
  then have p: "(2::real) ^ nat (bitlen n - 1) \<le> of_int n" by simp
  have "pow2 (exponent2 r) = 2 ^ nat (bitlen n - 1)"
    using b1 by (simp add: e pow2_def)
  with p n(2) have lo: "pow2 (exponent2 r) \<le> \<bar>r\<bar>" by linarith
  have "n + 1 \<le> 2 ^ nat (bitlen n)" using b(2) by simp
  then have "of_int (n + 1) \<le> (of_int (2 ^ nat (bitlen n)) :: real)"
    by (simp only: of_int_le_iff)
  then have q: "of_int n + 1 \<le> (2::real) ^ nat (bitlen n)" by simp
  have "pow2 (exponent2 r + 1) = 2 ^ nat (bitlen n)"
    using b1 by (simp add: e pow2_def)
  with q n(3) have hi: "\<bar>r\<bar> < pow2 (exponent2 r + 1)" by linarith
  from lo hi show ?thesis ..
next
  case False
  define t where "t = 1 / \<bar>r\<bar>"
  define m where "m = \<lceil>t\<rceil> - 1"
  have r: "0 < \<bar>r\<bar>" "\<bar>r\<bar> < 1" using assms False by simp_all
  then have t: "1 < t" by (simp add: t_def)
  have m: "of_int m < t" "t \<le> of_int m + 1"
    unfolding m_def by linarith+
  have "1 \<le> m" using t unfolding m_def by linarith
  then have "0 < m" by simp
  from bitlen_bounds[OF this] have b: "2 ^ nat (bitlen m - 1) \<le> m" "m < 2 ^ nat (bitlen m)"
    by simp_all
  have b1: "1 \<le> bitlen m" using \<open>0 < m\<close> by (simp add: bitlen_alt_def)
  have e: "exponent2 r = - bitlen m" using False by (simp add: exponent2_def m_def t_def)
  have "m + 1 \<le> 2 ^ nat (bitlen m)" using b(2) by simp
  then have "of_int (m + 1) \<le> (of_int (2 ^ nat (bitlen m)) :: real)"
    by (simp only: of_int_le_iff)
  then have "of_int m + 1 \<le> (2::real) ^ nat (bitlen m)" by simp
  with m(2) have "t \<le> 2 ^ nat (bitlen m)" by linarith
  then have "1 / 2 ^ nat (bitlen m) \<le> \<bar>r\<bar>"
    using r(1) by (simp add: t_def field_simps)
  then have lo: "pow2 (exponent2 r) \<le> \<bar>r\<bar>"
    using b1 by (simp add: e pow2_def)
  have "of_int (2 ^ nat (bitlen m - 1)) \<le> (of_int m :: real)"
    using b(1) by (simp only: of_int_le_iff)
  then have "(2::real) ^ nat (bitlen m - 1) \<le> of_int m" by simp
  with m(1) have "2 ^ nat (bitlen m - 1) < t" by linarith
  then have lt: "\<bar>r\<bar> < 1 / 2 ^ nat (bitlen m - 1)"
    using r(1) by (simp add: t_def field_simps)
  have hi: "\<bar>r\<bar> < pow2 (exponent2 r + 1)"
  proof (cases "bitlen m = 1")
    case True
    with r(2) show ?thesis by (simp add: e pow2_def)
  next
    case F: False
    with b1 have "1 < bitlen m" by simp
    then have "pow2 (exponent2 r + 1) = 1 / 2 ^ nat (bitlen m - 1)"
      by (simp add: e pow2_def)
    with lt show ?thesis by simp
  qed
  from lo hi show ?thesis ..
qed

lemma round_ties_even_near: "\<bar>of_int (round_ties_even q) - q\<bar> \<le> 1 / 2"
proof -
  have "of_int \<lfloor>q\<rfloor> \<le> q" "q < of_int \<lfloor>q\<rfloor> + 1" by linarith+
  then show ?thesis
    by (auto simp: round_ties_even_def Let_def)
qed

lemma pow2_pos: "0 < pow2 e"
  by (simp add: pow2_def)

lemma fl64_near: "\<bar>fl64 r - r\<bar> \<le> pow2 (exponent2 r - 52) / 2"
proof (cases "r = 0")
  case True
  then show ?thesis using pow2_pos[of "exponent2 r - 52"] by (simp add: fl64_def)
next
  case False
  define u where "u = pow2 (exponent2 r - 52)"
  have u: "0 < u" unfolding u_def by (rule pow2_pos)
  have "fl64 r - r = (of_int (round_ties_even (r / u)) - r / u) * u"
    using False u by (simp add: fl64_def u_def[symmetric] Let_def field_simps)
  then have "\<bar>fl64 r - r\<bar> = \<bar>of_int (round_ties_even (r / u)) - r / u\<bar> * u"
    using u by (simp add: abs_mult)
  also have "\<dots> \<le> (1 / 2) * u"
    using round_ties_even_near[of "r / u"] u by (intro mult_right_mono) simp_all
  finally show ?thesis by (simp add: u_def)
qed

lemma fl_add_commute: "fl_add a b = fl_add b a"
  by (simp add: fl_add_def add.commute)

lemma fl_add_zero: "is_float64 t \<Longrightarrow> fl_add 0 t = t"
  by (simp add: fl_add_def is_float64_def)

text \<open>
  With exact addition the fold is the sum of the list, and the parametrised functions
  are the exact ones.
\<close>

lemma foldl_plus_sum_list: "foldl (+) a xs = a + sum_list xs" for a :: real
  by (induction xs arbitrary: a) (simp_all add: add.assoc)

lemma np_sum_axis0_with_plus: "np_sum_axis0_with (+) LLs = np_sum_axis0 LLs"
  by (cases LLs) (simp_all add: np_sum_axis0_with_def np_sum_axis0_def foldl_plus_sum_list)

lemma likelihood_dilution_with_plus:
  "likelihood_dilution_with (+) x y d model = likelihood_dilution x y d model"
  by (simp add: likelihood_dilution_with_def likelihood_dilution_def np_sum_axis0_with_plus
      split: sum.splits)

text \<open>
  An associative and commutative addition makes the fold independent of the order.
\<close>

lemma foldl_mset:
  assumes assoc: "\<forall>a b c. add (add a b) c = add a (add b c)"
    and comm: "\<forall>a b. add a b = add b a"
    and "mset xs = mset ys"
  shows "foldl add z xs = foldl add z ys"
proof -
  have sw: "add (add acc b) a = add (add acc a) b" for acc a b
  proof -
    have "add (add acc b) a = add acc (add b a)" using assoc by simp
    also have "\<dots> = add acc (add a b)" using comm by simp
    also have "\<dots> = add (add acc a) b" using assoc by simp
    finally show ?thesis .
  qed
  have "fold (\<lambda>x acc. add acc x) xs = fold (\<lambda>x acc. add acc x) ys"
    by (rule fold_multiset_equiv) (auto simp: fun_eq_iff sw assms(3))
  then show ?thesis by (simp add: foldl_conv_fold)
qed

lemma np_sum_axis0_with_hd:
  "vs \<noteq> [] \<Longrightarrow> np_sum_axis0_with add vs =
     (if list_all (same_shape (hd vs)) vs
      then Inr \<lparr>shape = shape (hd vs),
                data = map (\<lambda>k. foldl add 0 (map (\<lambda>u. data u ! k) vs)) [0..<length (data (hd vs))]\<rparr>
      else Inl ValueError)"
  by (cases vs) (simp_all add: np_sum_axis0_with_def)

lemma np_sum_axis0_with_mset:
  assumes assoc: "\<forall>a b c. add (add a b) c = add a (add b c)"
    and comm: "\<forall>a b. add a b = add b a"
    and m: "mset vs = mset vs'"
  shows "np_sum_axis0_with add vs = np_sum_axis0_with add vs'"
proof (cases "vs = []")
  case True
  with m have "vs' = []" by simp
  with True show ?thesis by simp
next
  case False
  with m have ne': "vs' \<noteq> []" by auto
  have set_eq: "set vs = set vs'" using m by (rule mset_eq_setD)
  have "hd vs \<in> set vs" "hd vs' \<in> set vs'"
    using False ne' by simp_all
  then have hd_in: "hd vs \<in> set vs'" "hd vs' \<in> set vs"
    using set_eq by simp_all
  have sums: "foldl add 0 (map f vs) = foldl add 0 (map f vs')" for f :: "ndarray \<Rightarrow> real"
    using assoc comm by (rule foldl_mset) (simp add: m)
  have all_iff: "list_all (same_shape (hd vs)) vs \<longleftrightarrow> list_all (same_shape (hd vs')) vs'"
    unfolding list_all_iff using hd_in set_eq
    by (metis same_shape_trans)
  show ?thesis
  proof (cases "list_all (same_shape (hd vs)) vs")
    case True
    then have "same_shape (hd vs) (hd vs')"
      using hd_in(2) by (simp add: list_all_iff)
    then have "shape (hd vs') = shape (hd vs)" "length (data (hd vs')) = length (data (hd vs))"
      by (simp_all add: same_shape_def)
    with True all_iff False ne' show ?thesis
      by (simp add: np_sum_axis0_with_hd sums)
  next
    case F: False
    with all_iff False ne' show ?thesis
      by (simp add: np_sum_axis0_with_hd)
  qed
qed

text \<open>
  float64 addition is not associative: one unit is lost next to \<open>10^16\<close>.
\<close>

lemma fl_sum_a: "foldl fl_add 0 [10000000000000000, 1, - 10000000000000000] = 0"
  by code_simp

lemma fl_sum_b: "foldl fl_add 0 [10000000000000000, - 10000000000000000, 1] = 1"
  by code_simp

lemma fl64_examples: "is_float64 (- 9)" "is_float64 (- 4)" "fl_add (fl_add 0 (- 9)) (- 4) = - 13"
  unfolding is_float64_def by code_simp+

section \<open>The composer \<^verbatim>\<open>likelihood_dilution\<close>\<close>

text \<open>
  The value of the composer when the model returns at every pair, with arrays of one
  common shape: elementwise, the exponential of the sum of the log-likelihoods.
\<close>

lemma likelihood_dilution_value:
  assumes ne: "zip d y \<noteq> []"
    and ll: "\<And>p. p \<in> set (zip d y) \<Longrightarrow>
               loglikelihood model (np_divide x (fst p)) (snd p) = Inr (L p) \<and>
               shape (L p) = s \<and> length (data (L p)) = n"
  shows "likelihood_dilution x y d model =
           Inr \<lparr>shape = s,
                data = map (\<lambda>k. exp (sum_list (map (\<lambda>p. data (L p) ! k) (zip d y)))) [0..<n]\<rparr>"
proof -
  let ?f = "\<lambda>(d_i, y_i). loglikelihood model (np_divide x d_i) y_i"
  have "?f p = Inr (L p)" if "p \<in> set (zip d y)" for p
    using ll[OF that] by (simp add: case_prod_beta)
  then have tm: "try_map ?f (zip d y) = Inr (map L (zip d y))" by (rule try_map_all_Inr)
  have "np_sum_axis0 (map L (zip d y)) =
      Inr \<lparr>shape = s, data = map (\<lambda>k. sum_list (map (\<lambda>u. data u ! k) (map L (zip d y)))) [0..<n]\<rparr>"
    using ne ll by (intro np_sum_axis0_same) auto
  with tm show ?thesis
    by (simp add: likelihood_dilution_def np_exp_def comp_def)
qed

lemma likelihood_dilution_first_pairs:
  assumes n: "n = min (length d) (length y)" and pos: "0 < n"
    and ll: "\<forall>i<n. loglikelihood model (np_divide x (d ! i)) (y ! i) = Inr (L i)"
    and sh: "\<forall>i<n. shape (L i) = s \<and> length (data (L i)) = m"
  shows "likelihood_dilution x y d model =
           Inr \<lparr>shape = s, data = map (\<lambda>k. exp (\<Sum>i<n. data (L i) ! k)) [0..<m]\<rparr>"
proof -
  let ?L = "\<lambda>p. projr (loglikelihood model (np_divide x (fst p)) (snd p))"
  have len: "length (zip d y) = n" using n by simp
  have nth: "?L (zip d y ! i) = L i" if "i < n" for i
    using that n ll by simp
  have ne: "zip d y \<noteq> []" using len pos by auto
  have "loglikelihood model (np_divide x (fst p)) (snd p) = Inr (?L p) \<and>
        shape (?L p) = s \<and> length (data (?L p)) = m" if "p \<in> set (zip d y)" for p
  proof -
    from that obtain i where i: "i < length (zip d y)" "p = zip d y ! i"
      by (auto simp: in_set_conv_nth)
    from i(1) have "i < n" unfolding len .
    with i(2) ll sh n show ?thesis by simp
  qed
  from likelihood_dilution_value[OF ne this]
  have "likelihood_dilution x y d model =
      Inr \<lparr>shape = s, data = map (\<lambda>k. exp (sum_list (map (\<lambda>p. data (?L p) ! k) (zip d y)))) [0..<m]\<rparr>" .
  moreover have "sum_list (map (\<lambda>p. data (?L p) ! k) (zip d y)) = (\<Sum>i<n. data (L i) ! k)" for k
  proof -
    have "sum_list (map (\<lambda>p. data (?L p) ! k) (zip d y))
        = (\<Sum>i = 0..<length (zip d y). data (?L (zip d y ! i)) ! k)"
      by (simp add: sum_list_sum_nth)
    also have "\<dots> = (\<Sum>i = 0..<n. data (L i) ! k)"
      unfolding len using nth by (intro sum.cong) auto
    finally show ?thesis by (simp add: atLeast0LessThan)
  qed
  ultimately show ?thesis by simp
qed

lemma likelihood_dilution_take:
  "likelihood_dilution x y d model =
     likelihood_dilution x (take (min (length d) (length y)) y)
       (take (min (length d) (length y)) d) model"
proof -
  have "zip (take (min (length d) (length y)) d) (take (min (length d) (length y)) y)
      = take (length (zip d y)) (zip d y)"
    by (simp only: take_zip length_zip)
  then show ?thesis by (simp add: likelihood_dilution_def)
qed

lemma likelihood_dilution_with_perm_imp:
  assumes assoc: "\<forall>a b c. add (add a b) c = add a (add b c)"
    and comm: "\<forall>a b. add a b = add b a"
    and p: "mset (zip d' y') = mset (zip d y)"
    and r: "likelihood_dilution_with add x y d model = Inr v"
  shows "likelihood_dilution_with add x y' d' model = Inr v"
proof -
  let ?f = "\<lambda>(d_i, y_i). loglikelihood model (np_divide x d_i) y_i"
  from r obtain LLs where LLs: "try_map ?f (zip d y) = Inr LLs"
    by (auto simp: likelihood_dilution_with_def split: sum.splits)
  from try_map_mset[OF p LLs] obtain LLs' where
    LLs': "try_map ?f (zip d' y') = Inr LLs'" "mset LLs' = mset LLs" by blast
  have "np_sum_axis0_with add LLs' = np_sum_axis0_with add LLs"
    using assoc comm LLs'(2) by (rule np_sum_axis0_with_mset)
  with LLs LLs'(1) r show ?thesis
    by (simp add: likelihood_dilution_with_def)
qed

lemma likelihood_dilution_with_two:
  assumes "loglikelihood model (np_divide x d0) y0 = Inr L0"
    and "loglikelihood model (np_divide x d1) y1 = Inr L1"
  shows "likelihood_dilution_with add x [y0, y1] [d0, d1] model =
           (if same_shape L0 L1
            then Inr \<lparr>shape = shape L0,
                      data = map (\<lambda>k. exp (add (add 0 (data L0 ! k)) (data L1 ! k)))
                               [0..<length (data L0)]\<rparr>
            else Inl ValueError)"
  using assms
  by (simp add: likelihood_dilution_with_def np_sum_axis0_with_def np_exp_def same_shape_def
      comp_def)

lemma likelihood_dilution_fl_swap:
  assumes l0: "loglikelihood model (np_divide x d0) y0 = Inr L0"
    and l1: "loglikelihood model (np_divide x d1) y1 = Inr L1"
    and f0: "list_all is_float64 (data L0)" and f1: "list_all is_float64 (data L1)"
  shows "likelihood_dilution_with fl_add x [y1, y0] [d1, d0] model =
         likelihood_dilution_with fl_add x [y0, y1] [d0, d1] model"
proof (cases "same_shape L0 L1")
  case True
  then have sh: "shape L1 = shape L0" "length (data L1) = length (data L0)" "same_shape L1 L0"
    by (simp_all add: same_shape_def)
  have "fl_add (fl_add 0 (data L1 ! k)) (data L0 ! k) = fl_add (fl_add 0 (data L0 ! k)) (data L1 ! k)"
    if "k < length (data L0)" for k
  proof -
    have "is_float64 (data L0 ! k)" "is_float64 (data L1 ! k)"
      using f0 f1 that sh(2) by (simp_all add: list_all_length)
    then show ?thesis by (simp add: fl_add_zero fl_add_commute)
  qed
  then have "map (\<lambda>k. exp (fl_add (fl_add 0 (data L1 ! k)) (data L0 ! k))) [0..<length (data L0)]
      = map (\<lambda>k. exp (fl_add (fl_add 0 (data L0 ! k)) (data L1 ! k))) [0..<length (data L0)]"
    by (intro map_cong) auto
  with True sh show ?thesis
    by (simp add: likelihood_dilution_with_two[OF l0 l1] likelihood_dilution_with_two[OF l1 l0])
next
  case False
  then have "\<not> same_shape L1 L0" by (auto simp: same_shape_def)
  with False show ?thesis
    by (simp add: likelihood_dilution_with_two[OF l0 l1] likelihood_dilution_with_two[OF l1 l0])
qed

text \<open>
  C1. Let \<open>d\<close> and \<open>y\<close> have the same length \<open>N \<ge> 1\<close>, and let the model return
  the array \<open>L i\<close> for the candidate \<open>x / d\<^sub>i\<close> and the observation \<open>y\<^sub>i\<close>, all of one
  shape. Then the composer returns the array of that shape whose element \<open>k\<close> is
  \<open>exp (\<Sum>i<N. L i [k])\<close>: a likelihood, the exponential of the elementwise sum of the
  log-likelihoods.
\<close>

theorem likelihood_dilution_joint:
  assumes len: "length d = length y" and pos: "1 \<le> length y"
    and ll: "\<forall>i<length y. loglikelihood model (np_divide x (d ! i)) (y ! i) = Inr (L i)"
    and sh: "\<forall>i<length y. shape (L i) = s \<and> length (data (L i)) = n"
  shows "likelihood_dilution x y d model =
           Inr \<lparr>shape = s, data = map (\<lambda>k. exp (\<Sum>i<length y. data (L i) ! k)) [0..<n]\<rparr>"
proof -
  let ?L = "\<lambda>p. projr (loglikelihood model (np_divide x (fst p)) (snd p))"
  have nth: "?L (zip d y ! i) = L i" if "i < length y" for i
    using that len ll by simp
  have ne: "zip d y \<noteq> []" using len pos by (cases d; cases y) auto
  have "loglikelihood model (np_divide x (fst p)) (snd p) = Inr (?L p) \<and>
        shape (?L p) = s \<and> length (data (?L p)) = n" if "p \<in> set (zip d y)" for p
  proof -
    from that obtain i where i: "i < length (zip d y)" "p = zip d y ! i"
      by (auto simp: in_set_conv_nth)
    then have "i < length y" using len by simp
    with i ll sh len show ?thesis by simp
  qed
  from likelihood_dilution_value[OF ne this]
  have "likelihood_dilution x y d model =
      Inr \<lparr>shape = s, data = map (\<lambda>k. exp (sum_list (map (\<lambda>p. data (?L p) ! k) (zip d y)))) [0..<n]\<rparr>" .
  moreover have "sum_list (map (\<lambda>p. data (?L p) ! k) (zip d y)) = (\<Sum>i<length y. data (L i) ! k)" for k
  proof -
    have "sum_list (map (\<lambda>p. data (?L p) ! k) (zip d y))
        = (\<Sum>i = 0..<length (zip d y). data (?L (zip d y ! i)) ! k)"
      by (simp add: sum_list_sum_nth)
    also have "\<dots> = (\<Sum>i = 0..<length y. data (L i) ! k)"
      using len nth by (intro sum.cong) auto
    finally show ?thesis by (simp add: atLeast0LessThan)
  qed
  ultimately show ?thesis by simp
qed

theorem likelihood_dilution_joint_witness:
  "likelihood_dilution (array1 [10, 20]) [5, 5] [1, 2] gauss_model =
     Inr \<lparr>shape = [2], data = [exp (- 25), exp (- 250)]\<rparr>"
  using likelihood_dilution_joint [of "[1, 2]" "[5, 5]" gauss_model "array1 [10, 20]"
      "\<lambda>i. \<lparr>shape = [2], data = (if i = 0 then [- 25, - 225] else [0, - 25])\<rparr>" "[2]" 2]
  by (simp add: gauss_model_def np_divide_def array1_def less_Suc_eq upt_rec)

text \<open>
  C4. With a single pair the composer is the exponential of the one log-likelihood
  \<open>loglikelihood (x / d\<^sub>0) y\<^sub>0\<close>, exceptions included, and with \<open>d = [1]\<close> the model
  receives \<open>x\<close> itself.
\<close>

theorem likelihood_dilution_single:
  "likelihood_dilution x [y0] [d0] model =
     (case loglikelihood model (np_divide x d0) y0 of
        Inl e \<Rightarrow> Inl e
      | Inr l \<Rightarrow> Inr (np_exp l))
   \<and> likelihood_dilution x [y0] [1] model =
     (case loglikelihood model x y0 of
        Inl e \<Rightarrow> Inl e
      | Inr l \<Rightarrow> Inr (np_exp l))"
  by (simp add: likelihood_dilution_def np_sum_axis0_single np_divide_one split: sum.splits)

text \<open>
  C5. Permuting the pairs \<open>(d\<^sub>i, y\<^sub>i)\<close> together leaves the joint likelihood
  unchanged as far as the addition of the sum allows. When the addition is associative
  and commutative, as exact addition is, and the pairs of \<open>(d', y')\<close> are those of
  \<open>(d, y)\<close> in another order, the composer returns the likelihood \<open>v\<close> on one exactly when
  it returns \<open>v\<close> on the other (when the model raises at several pairs, the order decides
  which exception comes first). With the float64 addition, which is commutative only,
  swapping two pairs whose log-likelihoods are float64 numbers changes nothing.
\<close>

theorem likelihood_dilution_permute_amended:
  "((\<forall>a b c. add (add a b) c = add a (add b c)) \<and> (\<forall>a b. add a b = add b a) \<and>
      mset (zip d' y') = mset (zip d y)
    \<longrightarrow> (likelihood_dilution_with add x y' d' model = Inr v \<longleftrightarrow>
         likelihood_dilution_with add x y d model = Inr v))
   \<and> (loglikelihood model (np_divide x d0) y0 = Inr L0 \<and>
      loglikelihood model (np_divide x d1) y1 = Inr L1 \<and>
      list_all is_float64 (data L0) \<and> list_all is_float64 (data L1)
    \<longrightarrow> likelihood_dilution_with fl_add x [y1, y0] [d1, d0] model =
        likelihood_dilution_with fl_add x [y0, y1] [d0, d1] model)"
proof (intro conjI impI)
  assume h: "(\<forall>a b c. add (add a b) c = add a (add b c)) \<and> (\<forall>a b. add a b = add b a) \<and>
      mset (zip d' y') = mset (zip d y)"
  then have assoc: "\<forall>a b c. add (add a b) c = add a (add b c)"
    and comm: "\<forall>a b. add a b = add b a"
    and p: "mset (zip d' y') = mset (zip d y)" by blast+
  show "likelihood_dilution_with add x y' d' model = Inr v \<longleftrightarrow>
        likelihood_dilution_with add x y d model = Inr v"
  proof
    assume "likelihood_dilution_with add x y' d' model = Inr v"
    with assoc comm p[symmetric] show "likelihood_dilution_with add x y d model = Inr v"
      by (rule likelihood_dilution_with_perm_imp)
  next
    assume "likelihood_dilution_with add x y d model = Inr v"
    with assoc comm p show "likelihood_dilution_with add x y' d' model = Inr v"
      by (rule likelihood_dilution_with_perm_imp)
  qed
next
  assume "loglikelihood model (np_divide x d0) y0 = Inr L0 \<and>
      loglikelihood model (np_divide x d1) y1 = Inr L1 \<and>
      list_all is_float64 (data L0) \<and> list_all is_float64 (data L1)"
  then show "likelihood_dilution_with fl_add x [y1, y0] [d1, d0] model =
        likelihood_dilution_with fl_add x [y0, y1] [d0, d1] model"
    by (intro likelihood_dilution_fl_swap) blast+
qed

theorem likelihood_dilution_permute_amended_witness:
  "likelihood_dilution_with (+) (scalar 8) [7, 5, 6] [4, 1, 2] gauss_model
     = Inr (scalar (exp (- 38)))
   \<and> likelihood_dilution_with fl_add (scalar 8) [6, 5] [2, 1] gauss_model
     = Inr (scalar (exp (- 13)))"
proof -
  have a: "\<forall>a b c :: real. (a + b) + c = a + (b + c)" by simp
  have c: "\<forall>a b :: real. a + b = b + a" by simp
  have p: "mset (zip [4, 1, 2] [7, 5, 6 :: real]) = mset (zip [1, 2, 4 :: real] [5, 6, 7])"
    by simp
  have r: "likelihood_dilution_with (+) (scalar 8) [5, 6, 7] [1, 2, 4] gauss_model
      = Inr (scalar (exp (- 38)))"
    by (simp add: likelihood_dilution_with_def np_sum_axis0_with_def np_exp_def np_divide_def
        scalar_def gauss_model_def same_shape_def)
  note inst = likelihood_dilution_permute_amended [of "(+)" "[4, 1, 2]" "[7, 5, 6]" "[1, 2, 4]"
      "[5, 6, 7]" "scalar 8" gauss_model "scalar (exp (- 38))" 1 5 "scalar (- 9)" 2 6 "scalar (- 4)"]
  have first: "likelihood_dilution_with (+) (scalar 8) [7, 5, 6] [4, 1, 2] gauss_model
      = Inr (scalar (exp (- 38)))"
    using inst a c p r by blast
  have l0: "loglikelihood gauss_model (np_divide (scalar 8) 1) 5 = Inr (scalar (- 9))"
    by (simp add: gauss_model_def np_divide_def scalar_def)
  have l1: "loglikelihood gauss_model (np_divide (scalar 8) 2) 6 = Inr (scalar (- 4))"
    by (simp add: gauss_model_def np_divide_def scalar_def)
  have f: "list_all is_float64 (data (scalar (- 9)))" "list_all is_float64 (data (scalar (- 4)))"
    using fl64_examples by (simp_all add: scalar_def)
  have s: "likelihood_dilution_with fl_add (scalar 8) [5, 6] [1, 2] gauss_model
      = Inr (scalar (exp (- 13)))"
    using fl64_examples(3)
    by (simp add: likelihood_dilution_with_def np_sum_axis0_with_def np_exp_def np_divide_def
        scalar_def gauss_model_def same_shape_def)
  have second: "likelihood_dilution_with fl_add (scalar 8) [6, 5] [2, 1] gauss_model
      = Inr (scalar (exp (- 13)))"
    using inst l0 l1 f s by simp
  from first second show ?thesis by simp
qed

text \<open>
  C5, as it is stated for every permutation, fails in float64 from three pairs on. The
  log-likelihoods \<open>10^16\<close>, \<open>1\<close> and \<open>-10^16\<close> sum to 0 in this order (the 1 is lost
  in \<open>10^16 + 1\<close>) and to 1 in the order \<open>10^16\<close>, \<open>-10^16\<close>, \<open>1\<close>: the composed
  likelihood is 1 for one order of the pairs and \<open>e\<close> for the other.
\<close>

theorem likelihood_dilution_permute_counterexample:
  "mset (zip [1, 4, 2] [10000000000000000, - 10000000000000000, 1 :: real])
     = mset (zip [1, 2, 4 :: real] [10000000000000000, 1, - 10000000000000000])
   \<and> likelihood_dilution_with fl_add (scalar 8) [10000000000000000, 1, - 10000000000000000]
       [1, 2, 4] flat_model = Inr (scalar 1)
   \<and> likelihood_dilution_with fl_add (scalar 8) [10000000000000000, - 10000000000000000, 1]
       [1, 4, 2] flat_model = Inr (scalar (exp 1))
   \<and> likelihood_dilution_with fl_add (scalar 8) [10000000000000000, - 10000000000000000, 1]
       [1, 4, 2] flat_model
     \<noteq> likelihood_dilution_with fl_add (scalar 8) [10000000000000000, 1, - 10000000000000000]
       [1, 2, 4] flat_model"
proof -
  have p: "mset (zip [1, 4, 2] [10000000000000000, - 10000000000000000, 1 :: real])
     = mset (zip [1, 2, 4 :: real] [10000000000000000, 1, - 10000000000000000])"
    by simp
  have a: "likelihood_dilution_with fl_add (scalar 8) [10000000000000000, 1, - 10000000000000000]
       [1, 2, 4] flat_model = Inr (scalar 1)"
    using fl_sum_a
    by (simp add: likelihood_dilution_with_def np_sum_axis0_with_def np_exp_def np_divide_def
        scalar_def flat_model_def same_shape_def)
  have b: "likelihood_dilution_with fl_add (scalar 8) [10000000000000000, - 10000000000000000, 1]
       [1, 4, 2] flat_model = Inr (scalar (exp 1))"
    using fl_sum_b
    by (simp add: likelihood_dilution_with_def np_sum_axis0_with_def np_exp_def np_divide_def
        scalar_def flat_model_def same_shape_def)
  have "scalar (exp 1) \<noteq> scalar 1" by (simp add: scalar_def)
  with p a b show ?thesis by simp
qed

text \<open>
  C8. The scenario \<open>d = [1, 2]\<close>, \<open>y = [5, 5]\<close> with the log-likelihood
  \<open>-(y - x)^2\<close>: at the candidate 10 the composed likelihood is \<open>exp (-25)\<close>.
\<close>

theorem likelihood_dilution_scenario:
  "likelihood_dilution (scalar 10) [5, 5] [1, 2] gauss_model = Inr (scalar (exp (- 25)))"
  by (simp add: likelihood_dilution_def np_sum_axis0_def np_exp_def np_divide_def
      scalar_def gauss_model_def same_shape_def)

text \<open>
  C9. When \<open>d\<close> and \<open>y\<close> differ in length, \<^verbatim>\<open>zip\<close> stops at the shorter one and
  nothing checks the lengths. Let \<open>n = min (length d) (length y)\<close> and let the model
  return the array \<open>L i\<close> at each of the first \<open>n\<close> pairs, all of one shape; nothing is
  asked of the model anywhere else. Then the composer raises nothing and returns the
  joint likelihood of the first \<open>n\<close> pairs only, \<open>exp (\<Sum>i<n. L i [k])\<close> at element \<open>k\<close>
  (the scalar 1 when \<open>n = 0\<close>), which is also what it returns on the two vectors cut to
  their first \<open>n\<close> elements.
\<close>

theorem likelihood_dilution_unequal_lengths:
  assumes n: "n = min (length d) (length y)"
    and ll: "\<forall>i<n. loglikelihood model (np_divide x (d ! i)) (y ! i) = Inr (L i)"
    and sh: "\<forall>i<n. shape (L i) = s \<and> length (data (L i)) = m"
  shows "likelihood_dilution x y d model =
           (if n = 0 then Inr (scalar 1)
            else Inr \<lparr>shape = s, data = map (\<lambda>k. exp (\<Sum>i<n. data (L i) ! k)) [0..<m]\<rparr>)
       \<and> likelihood_dilution x y d model = likelihood_dilution x (take n y) (take n d) model"
proof
  show "likelihood_dilution x y d model =
           (if n = 0 then Inr (scalar 1)
            else Inr \<lparr>shape = s, data = map (\<lambda>k. exp (\<Sum>i<n. data (L i) ! k)) [0..<m]\<rparr>)"
  proof (cases "n = 0")
    case True
    with n have z: "zip d y = []" by (cases d; cases y) auto
    have "try_map (\<lambda>(d_i, y_i). loglikelihood model (np_divide x d_i) y_i) (zip d y) = Inr []"
      unfolding z by simp
    then have "likelihood_dilution x y d model = Inr (scalar 1)"
      by (simp add: likelihood_dilution_def np_sum_axis0_def np_exp_def scalar_def)
    with True show ?thesis by simp
  next
    case False
    then have "0 < n" by simp
    from likelihood_dilution_first_pairs[OF n this ll sh] False show ?thesis by simp
  qed
  show "likelihood_dilution x y d model = likelihood_dilution x (take n y) (take n d) model"
    unfolding n by (rule likelihood_dilution_take)
qed

theorem likelihood_dilution_unequal_lengths_witness:
  "likelihood_dilution (scalar 10) [5, 5, 7] [1, 2] gauss_model = Inr (scalar (exp (- 25)))
   \<and> likelihood_dilution (scalar 10) [5, 5] [1, 2, 4] gauss_model = Inr (scalar (exp (- 25)))
   \<and> likelihood_dilution (scalar 10) [5, 5, 7] [] gauss_model = Inr (scalar 1)"
proof -
  let ?L = "\<lambda>i::nat. scalar (if i = 0 then - 25 else 0)"
  have a: "likelihood_dilution (scalar 10) [5, 5, 7] [1, 2] gauss_model = Inr (scalar (exp (- 25)))"
    using likelihood_dilution_unequal_lengths [of 2 "[1, 2]" "[5, 5, 7]" gauss_model "scalar 10" ?L "[]" 1]
    by (simp add: gauss_model_def np_divide_def scalar_def less_Suc_eq)
  have b: "likelihood_dilution (scalar 10) [5, 5] [1, 2, 4] gauss_model = Inr (scalar (exp (- 25)))"
    using likelihood_dilution_unequal_lengths [of 2 "[1, 2, 4]" "[5, 5]" gauss_model "scalar 10" ?L "[]" 1]
    by (simp add: gauss_model_def np_divide_def scalar_def less_Suc_eq)
  have c: "likelihood_dilution (scalar 10) [5, 5, 7] [] gauss_model = Inr (scalar 1)"
    using likelihood_dilution_unequal_lengths [of 0 "[]" "[5, 5, 7]" gauss_model "scalar 10" ?L "[]" 1]
    by simp
  from a b c show ?thesis by simp
qed

text \<open>
  C10. With no dilution and no observation at all the composer raises nothing: the sum
  of the empty list is 0 and the result is the scalar likelihood 1, whatever the
  candidate and the model.
\<close>

theorem likelihood_dilution_empty:
  "likelihood_dilution x [] [] model = Inr (scalar 1)"
  by (simp add: likelihood_dilution_def np_sum_axis0_def np_exp_def scalar_def)

section \<open>The adapter \<^verbatim>\<open>likelihood_wrapper\<close>\<close>

text \<open>
  C2. Let \<open>x\<close> be the one-dimensional array of the candidates \<open>xs\<close>. Let \<open>m_loop\<close> be a
  model on which the batched attempt raises and which returns the scalar
  \<open>f (a / d\<^sub>i) y\<^sub>i\<close> for each single candidate \<open>a\<close>, and let \<open>m_vec\<close> be a model that
  answers the batched column \<open>x[..., None] / d\<^sub>i\<close> with the same numbers, one for each
  candidate in order, in an array of a shape \<open>s\<close> common to all pairs. Then the loop on
  \<open>m_loop\<close> and the batched call on \<open>m_vec\<close> return the same likelihood values in
  the same order, the first as a Python list of scalars and the second as an array of
  shape \<open>s\<close>: at the candidate \<open>a\<close> both hold \<open>exp (\<Sum>i. f (a / d\<^sub>i) y\<^sub>i)\<close>.
\<close>

theorem scan_fallback_equivalence:
  assumes unsupported:
      "likelihood_dilution (expand_dims_last (array1 xs)) y d m_loop = Inl e"
    and pointwise:
      "\<forall>p\<in>set (zip d y). \<forall>a\<in>set xs.
         loglikelihood m_loop (scalar (a / fst p)) (snd p) = Inr (scalar (f (a / fst p) (snd p)))"
    and batched:
      "\<forall>p\<in>set (zip d y). \<exists>L.
         loglikelihood m_vec (np_divide (expand_dims_last (array1 xs)) (fst p)) (snd p) = Inr L \<and>
         shape L = s \<and> data L = map (\<lambda>a. f (a / fst p) (snd p)) xs"
  shows "likelihood_wrapper d m_loop (array1 xs) y True =
           Inr (PyList (map (\<lambda>a. scalar (exp (\<Sum>p\<leftarrow>zip d y. f (a / fst p) (snd p)))) xs))
       \<and> likelihood_wrapper d m_vec (array1 xs) y True =
           Inr (NdArray \<lparr>shape = s,
                  data = map (\<lambda>a. exp (\<Sum>p\<leftarrow>zip d y. f (a / fst p) (snd p))) xs\<rparr>)"
proof
  have ne: "zip d y \<noteq> []"
  proof
    assume z: "zip d y = []"
    have "try_map (\<lambda>(d_i, y_i). loglikelihood m_loop
        (np_divide (expand_dims_last (array1 xs)) d_i) y_i) (zip d y) = Inr []"
      unfolding z by simp
    then have "likelihood_dilution (expand_dims_last (array1 xs)) y d m_loop = Inr (scalar 1)"
      by (simp add: likelihood_dilution_def np_sum_axis0_def np_exp_def scalar_def)
    with unsupported show False by simp
  qed
  let ?g = "\<lambda>a. scalar (exp (\<Sum>p\<leftarrow>zip d y. f (a / fst p) (snd p)))"
  have one: "likelihood_dilution (scalar a) y d m_loop = Inr (?g a)" if a: "a \<in> set xs" for a
  proof -
    let ?L = "\<lambda>p. scalar (f (a / fst p) (snd p))"
    have "loglikelihood m_loop (np_divide (scalar a) (fst p)) (snd p) = Inr (?L p) \<and>
          shape (?L p) = [] \<and> length (data (?L p)) = 1" if "p \<in> set (zip d y)" for p
      using pointwise that a by (simp add: np_divide_def scalar_def)
    from likelihood_dilution_value[OF ne this]
    show ?thesis by (simp add: scalar_def)
  qed
  have hd_scalar: "hd (data (scalar a)) = a" for a by (simp add: scalar_def)
  have "try_map (\<lambda>xi. likelihood_dilution xi y d m_loop) (map scalar xs)
      = Inr (map (\<lambda>xi. ?g (hd (data xi))) (map scalar xs))"
  proof (rule try_map_all_Inr)
    fix xi assume "xi \<in> set (map scalar xs)"
    then obtain a where a: "a \<in> set xs" "xi = scalar a" by auto
    show "likelihood_dilution xi y d m_loop = Inr (?g (hd (data xi)))"
      unfolding a(2) hd_scalar using a(1) by (rule one)
  qed
  then have "try_map (\<lambda>xi. likelihood_dilution xi y d m_loop) (map scalar xs) = Inr (map ?g xs)"
    by (simp add: comp_def hd_scalar)
  then show "likelihood_wrapper d m_loop (array1 xs) y True = Inr (PyList (map ?g xs))"
    using unsupported by (simp add: likelihood_wrapper_def iterate_array1)
  let ?L = "\<lambda>p. \<lparr>shape = s, data = map (\<lambda>a. f (a / fst p) (snd p)) xs\<rparr>"
  have "loglikelihood m_vec (np_divide (expand_dims_last (array1 xs)) (fst p)) (snd p) = Inr (?L p) \<and>
        shape (?L p) = s \<and> length (data (?L p)) = length xs" if "p \<in> set (zip d y)" for p
  proof -
    from batched that obtain L where
      L: "loglikelihood m_vec (np_divide (expand_dims_last (array1 xs)) (fst p)) (snd p) = Inr L"
        "shape L = s" "data L = map (\<lambda>a. f (a / fst p) (snd p)) xs" by blast
    from L(2,3) have "L = ?L p" by simp
    with L(1) show ?thesis by simp
  qed
  from likelihood_dilution_value[OF ne this]
  have "likelihood_dilution (expand_dims_last (array1 xs)) y d m_vec =
      Inr \<lparr>shape = s,
           data = map (\<lambda>k. exp (\<Sum>p\<leftarrow>zip d y. map (\<lambda>a. f (a / fst p) (snd p)) xs ! k)) [0..<length xs]\<rparr>"
    by simp
  moreover have "map (\<lambda>k. exp (\<Sum>p\<leftarrow>zip d y. map (\<lambda>a. f (a / fst p) (snd p)) xs ! k)) [0..<length xs]
      = map (\<lambda>k. exp (\<Sum>p\<leftarrow>zip d y. f (xs ! k / fst p) (snd p))) [0..<length xs]"
    by (intro map_cong) auto
  ultimately have "likelihood_dilution (expand_dims_last (array1 xs)) y d m_vec =
      Inr \<lparr>shape = s, data = map (\<lambda>a. exp (\<Sum>p\<leftarrow>zip d y. f (a / fst p) (snd p))) xs\<rparr>"
    by (simp only: map_upt_nth[of "\<lambda>a. exp (\<Sum>p\<leftarrow>zip d y. f (a / fst p) (snd p))" xs])
  then show "likelihood_wrapper d m_vec (array1 xs) y True =
      Inr (NdArray \<lparr>shape = s, data = map (\<lambda>a. exp (\<Sum>p\<leftarrow>zip d y. f (a / fst p) (snd p))) xs\<rparr>)"
    by (simp add: likelihood_wrapper_def)
qed

theorem scan_fallback_equivalence_witness:
  "likelihood_wrapper [1, 2] scalar_gauss_model (array1 [10, 20]) [5, 5] True =
     Inr (PyList [scalar (exp (- 25)), scalar (exp (- 250))])
   \<and> likelihood_wrapper [1, 2] gauss_model (array1 [10, 20]) [5, 5] True =
     Inr (NdArray \<lparr>shape = [2, 1], data = [exp (- 25), exp (- 250)]\<rparr>)"
proof -
  have u: "likelihood_dilution (expand_dims_last (array1 [10, 20])) [5, 5] [1, 2] scalar_gauss_model
      = Inl ValueError"
    by (simp add: likelihood_dilution_def scalar_gauss_model_def np_divide_def
        expand_dims_last_def array1_def)
  have p: "\<forall>p\<in>set (zip [1, 2] [5, 5]). \<forall>a\<in>set [10, 20].
      loglikelihood scalar_gauss_model (scalar (a / fst p)) (snd p)
        = Inr (scalar ((\<lambda>x y. - ((y - x)\<^sup>2)) (a / fst p) (snd p)))"
    by (simp add: scalar_gauss_model_def scalar_def)
  have b: "\<forall>p\<in>set (zip [1, 2] [5, 5]). \<exists>L.
      loglikelihood gauss_model (np_divide (expand_dims_last (array1 [10, 20])) (fst p)) (snd p) = Inr L \<and>
      shape L = [2, 1] \<and> data L = map (\<lambda>a. (\<lambda>x y. - ((y - x)\<^sup>2)) (a / fst p) (snd p)) [10, 20]"
    by (simp add: gauss_model_def np_divide_def expand_dims_last_def array1_def)
  from scan_fallback_equivalence [OF u p b]
  show ?thesis by simp
qed

text \<open>
  C3. In scan mode, when the batched attempt raises (whatever the exception), the
  wrapper returns what the loop over the candidates returns and the exception of the
  attempt is dropped: when each candidate's composer call returns, the wrapper returns
  the list of these results.
\<close>

theorem scan_fallback_on_exception:
  assumes "likelihood_dilution (expand_dims_last x) y d model = Inl e"
  shows "likelihood_wrapper d model x y True =
           (case iterate x of
              Inl e' \<Rightarrow> Inl e'
            | Inr xis \<Rightarrow>
                (case try_map (\<lambda>xi. likelihood_dilution xi y d model) xis of
                   Inl e' \<Rightarrow> Inl e'
                 | Inr vs \<Rightarrow> Inr (PyList vs)))
         \<and> (iterate x = Inr xis \<and>
              (\<forall>j<length xis. likelihood_dilution (xis ! j) y d model = Inr (vs ! j)) \<and>
              length vs = length xis
            \<longrightarrow> likelihood_wrapper d model x y True = Inr (PyList vs))"
proof (intro conjI impI)
  show w: "likelihood_wrapper d model x y True =
           (case iterate x of
              Inl e' \<Rightarrow> Inl e'
            | Inr xis \<Rightarrow>
                (case try_map (\<lambda>xi. likelihood_dilution xi y d model) xis of
                   Inl e' \<Rightarrow> Inl e'
                 | Inr vs \<Rightarrow> Inr (PyList vs)))"
    using assms by (simp add: likelihood_wrapper_def)
  assume a: "iterate x = Inr xis \<and>
              (\<forall>j<length xis. likelihood_dilution (xis ! j) y d model = Inr (vs ! j)) \<and>
              length vs = length xis"
  then have "try_map (\<lambda>xi. likelihood_dilution xi y d model) xis = Inr vs"
    unfolding try_map_Inr_nth by simp
  with a show "likelihood_wrapper d model x y True = Inr (PyList vs)"
    unfolding w by simp
qed

theorem scan_fallback_on_exception_witness:
  "likelihood_wrapper [1, 2] scalar_gauss_model (array1 [10, 20]) [5, 5] True =
     Inr (PyList [scalar (exp (- 25)), scalar (exp (- 250))])"
proof -
  have v: "likelihood_dilution (expand_dims_last (array1 [10, 20])) [5, 5] [1, 2] scalar_gauss_model
      = Inl ValueError"
    by (simp add: likelihood_dilution_def scalar_gauss_model_def np_divide_def
        expand_dims_last_def array1_def)
  have l: "iterate (array1 [10, 20]) = Inr [scalar 10, scalar 20] \<and>
      (\<forall>j<length [scalar 10, scalar 20].
         likelihood_dilution ([scalar 10, scalar 20] ! j) [5, 5] [1, 2] scalar_gauss_model
           = Inr ([scalar (exp (- 25)), scalar (exp (- 250))] ! j)) \<and>
      length [scalar (exp (- 25)), scalar (exp (- 250))] = length [scalar 10, scalar 20]"
    by (simp add: iterate_array1 less_Suc_eq likelihood_dilution_def np_sum_axis0_def np_exp_def
        np_divide_def scalar_def scalar_gauss_model_def same_shape_def)
  from scan_fallback_on_exception [OF v, of "[scalar 10, scalar 20]"
      "[scalar (exp (- 25)), scalar (exp (- 250))]"] l
  show ?thesis by blast
qed

text \<open>
  C6. Without \<open>scan_x\<close> the wrapper is one composer call on the given \<open>x\<close> and
  \<open>y\<close>, with no handler: it returns the composer's array, or raises what the composer
  raises. The composer itself raises the exception of the first pair at which the model
  raises.
\<close>

theorem pointwise_direct_call:
  "likelihood_wrapper d model x y False =
     (case likelihood_dilution x y d model of
        Inl e \<Rightarrow> Inl e
      | Inr v \<Rightarrow> Inr (NdArray v))
   \<and> (i < min (length d) (length y) \<and>
        loglikelihood model (np_divide x (d ! i)) (y ! i) = Inl e \<and>
        (\<forall>j<i. \<exists>l. loglikelihood model (np_divide x (d ! j)) (y ! j) = Inr l)
      \<longrightarrow> likelihood_dilution x y d model = Inl e \<and>
          likelihood_wrapper d model x y False = Inl e)"
proof (intro conjI impI)
  show w: "likelihood_wrapper d model x y False =
     (case likelihood_dilution x y d model of Inl e \<Rightarrow> Inl e | Inr v \<Rightarrow> Inr (NdArray v))"
    by (simp add: likelihood_wrapper_def)
  assume a: "i < min (length d) (length y) \<and>
        loglikelihood model (np_divide x (d ! i)) (y ! i) = Inl e \<and>
        (\<forall>j<i. \<exists>l. loglikelihood model (np_divide x (d ! j)) (y ! j) = Inr l)"
  let ?f = "\<lambda>(d_i, y_i). loglikelihood model (np_divide x d_i) y_i"
  have "i < length (zip d y)" using a by simp
  moreover have "?f (zip d y ! i) = Inl e" using a by simp
  moreover have "\<forall>j<i. \<exists>l. ?f (zip d y ! j) = Inr l" using a by simp
  ultimately have "try_map ?f (zip d y) = Inl e"
    unfolding try_map_Inl_first by blast
  then show c: "likelihood_dilution x y d model = Inl e"
    by (simp add: likelihood_dilution_def)
  show "likelihood_wrapper d model x y False = Inl e"
    unfolding w c by simp
qed

theorem pointwise_direct_call_witness:
  "likelihood_wrapper [1, 2] scalar_gauss_model (array1 [10, 20]) [5, 5] False = Inl ValueError"
proof -
  have "(0::nat) < min (length [1, 2 :: real]) (length [5, 5 :: real]) \<and>
      loglikelihood scalar_gauss_model (np_divide (array1 [10, 20]) ([1, 2] ! 0)) ([5, 5] ! 0)
        = Inl ValueError \<and>
      (\<forall>j<0. \<exists>l. loglikelihood scalar_gauss_model (np_divide (array1 [10, 20]) ([1, 2] ! j))
        ([5, 5] ! j) = Inr l)"
    by (simp add: scalar_gauss_model_def np_divide_def array1_def)
  with pointwise_direct_call [of "[1, 2]" scalar_gauss_model "array1 [10, 20]" "[5, 5]" 0 ValueError]
  show ?thesis by blast
qed

section \<open>The driver \<^verbatim>\<open>infer_independent\<close>\<close>

text \<open>
  C7. The driver hands the wrapper (closed over \<open>d\<close> and the model) and the caller's
  \<open>y\<close>, \<open>lower\<close>, \<open>upper\<close>, \<open>steps\<close> and \<open>ci_prob\<close> to the external routine, whatever
  that routine is, and its result is the routine's result.
\<close>

theorem infer_independent_delegates:
  "infer_independent calibr8_infer_independent model d y lower upper steps ci_prob =
     calibr8_infer_independent (likelihood_wrapper d model) y lower upper steps ci_prob"
  by (simp add: infer_independent_def)

end
